theory Spec2Isabelle
  imports Complex_Main "HOL-Library.Log_Nat"
begin

section \<open>Live news trends: the sketch, the sliding window and the ranking\<close>

text \<open>
  A shallow embedding of \<^verbatim>\<open>src/core_algorithm.py\<close>. Python exceptions are values of
  \<open>py_error\<close>, and a function that can raise returns \<open>py_error + 'a\<close> (\<open>Inl\<close> the
  exception). The module's globals (\<^verbatim>\<open>window\<close>, \<^verbatim>\<open>all_words_buffer\<close>,
  \<^verbatim>\<open>current_trending\<close>) are passed in and returned. Two things the module takes from
  outside are parameters of the model:
  \<^item> the SHA-256 digest read as an integer, \<open>h item seed\<close> standing for
    \<^verbatim>\<open>int(hashlib.sha256(item.encode("utf-8") + str(seed).encode()).hexdigest(), 16)\<close>;
  \<^item> the values drawn from the \<^verbatim>\<open>random\<close> module while one sketch is constructed
    (record \<open>draws\<close>).
  A Python float is the real number it denotes (so \<^verbatim>\<open>-0.0\<close> and \<^verbatim>\<open>0.0\<close> are one
  value). In \<^verbatim>\<open>__init__\<close> the quotient \<^verbatim>\<open>2 / epsilon\<close> and the product with the random
  draw are taken exactly; the true division of \<^verbatim>\<open>get_top_k_words\<close> is the correctly
  rounded binary64 quotient of its two integers.
\<close>

subsection \<open>Exceptions and list indexing\<close>

datatype py_error = ValueError | IndexError | ZeroDivisionError | OverflowError

definition and_then :: "py_error + 'a \<Rightarrow> ('a \<Rightarrow> py_error + 'b) \<Rightarrow> py_error + 'b" where
  "and_then r f = (case r of Inl e \<Rightarrow> Inl e | Inr v \<Rightarrow> f v)"

text \<open>
  The position a Python subscript \<^verbatim>\<open>xs[i]\<close> reads or writes: a negative index counts from
  the end, anything outside raises \<^verbatim>\<open>IndexError\<close>.
\<close>

definition py_pos :: "'a list \<Rightarrow> int \<Rightarrow> py_error + nat" where
  "py_pos xs i =
     (if 0 \<le> i \<and> i < int (length xs) then Inr (nat i)
      else if i < 0 \<and> - int (length xs) \<le> i then Inr (nat (int (length xs) + i))
      else Inl IndexError)"

text \<open>\<^verbatim>\<open>min(estimates)\<close>: raises \<^verbatim>\<open>ValueError\<close> on an empty list.\<close>

fun py_min :: "int list \<Rightarrow> py_error + int" where
  "py_min [] = Inl ValueError"
| "py_min (x # xs) = Inr (fold min xs x)"

text \<open>\<^verbatim>\<open>int(x)\<close> on a float: truncation towards zero.\<close>

definition py_int :: "real \<Rightarrow> int" where
  "py_int x = (if 0 \<le> x then \<lfloor>x\<rfloor> else \<lceil>x\<rceil>)"

subsection \<open>CountMinSketch\<close>

type_synonym hashfn = "string \<Rightarrow> int \<Rightarrow> nat"

record CountMinSketch =
  epsilon :: real
  delta :: real
  width :: int
  depth :: int
  table :: "int list list"
  hash_seeds :: "int list"

text \<open>
  What one call of \<^verbatim>\<open>CountMinSketch.__init__\<close> draws: \<open>rand_float\<close> is the value of
  \<^verbatim>\<open>random.random()\<close> (in \<open>[0, 1)\<close>), \<open>rand_int i\<close> the value of the \<open>i\<close>-th call of
  \<^verbatim>\<open>random.randint(1, 1_000_000)\<close>.
\<close>

record draws =
  rand_float :: real
  rand_int :: "nat \<Rightarrow> int"

text \<open>
  The depth expression \<^verbatim>\<open>int(-1 * (random.random() * 100) or 10)\<close>: \<^verbatim>\<open>or\<close> binds weaker
  than \<^verbatim>\<open>*\<close>, and yields its left operand unless that is falsy (zero, for a float).
\<close>

definition depth_expr :: "real \<Rightarrow> int" where
  "depth_expr r = (let v = - 1 * (r * 100) in py_int (if v \<noteq> 0 then v else 10))"

definition CountMinSketch_init :: "real \<Rightarrow> real \<Rightarrow> draws \<Rightarrow> py_error + CountMinSketch" where
  "CountMinSketch_init eps dlt d =
     (if eps = 0 then Inl ZeroDivisionError
      else
        let w = py_int (2 / eps);
            dp = depth_expr (rand_float d)
        in Inr \<lparr> epsilon = eps, delta = dlt, width = w, depth = dp,
                 table = map (\<lambda>_. replicate (nat w) 0) [0..<nat dp],
                 hash_seeds = map (rand_int d) [0..<nat dp] \<rparr>)"

text \<open>\<^verbatim>\<open>CountMinSketch()\<close>, the only way the module constructs a sketch.\<close>

definition CountMinSketch_new :: "draws \<Rightarrow> py_error + CountMinSketch" where
  "CountMinSketch_new d = CountMinSketch_init (1 / 1000) (1 / 100) d"

definition hash_index :: "hashfn \<Rightarrow> CountMinSketch \<Rightarrow> string \<Rightarrow> int \<Rightarrow> py_error + int" where
  "hash_index h s item seed =
     (if width s = 0 then Inl ZeroDivisionError else Inr (int (h item seed) mod width s))"

text \<open>The counter \<^verbatim>\<open>self.table[i][index]\<close> of row \<open>i\<close> for \<open>item\<close>, as a position.\<close>

definition locate :: "hashfn \<Rightarrow> CountMinSketch \<Rightarrow> string \<Rightarrow> nat \<Rightarrow> py_error + nat \<times> nat" where
  "locate h s item i =
     and_then (py_pos (hash_seeds s) (int i)) (\<lambda>si.
     and_then (hash_index h s item (hash_seeds s ! si)) (\<lambda>index.
     and_then (py_pos (table s) (int i)) (\<lambda>ri.
     and_then (py_pos (table s ! ri) index) (\<lambda>ci. Inr (ri, ci)))))"

fun update_rows :: "hashfn \<Rightarrow> CountMinSketch \<Rightarrow> string \<Rightarrow> nat list \<Rightarrow> py_error + CountMinSketch" where
  "update_rows h s item [] = Inr s"
| "update_rows h s item (i # rest) =
     and_then (locate h s item i) (\<lambda>(ri, ci).
       update_rows h
         (s\<lparr>table := (table s)[ri := (table s ! ri)[ci := table s ! ri ! ci + 1]]\<rparr>)
         item rest)"

definition update :: "hashfn \<Rightarrow> CountMinSketch \<Rightarrow> string \<Rightarrow> py_error + CountMinSketch" where
  "update h s item = update_rows h s item [0..<nat (depth s)]"

fun estimate_rows :: "hashfn \<Rightarrow> CountMinSketch \<Rightarrow> string \<Rightarrow> nat list \<Rightarrow> int list \<Rightarrow> py_error + int list" where
  "estimate_rows h s item [] estimates = Inr estimates"
| "estimate_rows h s item (i # rest) estimates =
     and_then (locate h s item i) (\<lambda>(ri, ci).
       estimate_rows h s item rest (estimates @ [table s ! ri ! ci]))"

definition estimate :: "hashfn \<Rightarrow> CountMinSketch \<Rightarrow> string \<Rightarrow> py_error + int" where
  "estimate h s item = and_then (estimate_rows h s item [0..<nat (depth s)] []) py_min"

text \<open>A sequence of \<^verbatim>\<open>s.update\<close> calls, stopping at the first exception.\<close>

fun update_all :: "hashfn \<Rightarrow> CountMinSketch \<Rightarrow> string list \<Rightarrow> py_error + CountMinSketch" where
  "update_all h s [] = Inr s"
| "update_all h s (item # rest) = and_then (update h s item) (\<lambda>s'. update_all h s' rest)"

subsection \<open>Configuration\<close>

definition TOP_K :: nat where
  "TOP_K = 10"

definition WINDOW_SIZE :: nat where
  "WINDOW_SIZE = 20"

definition STOPWORDS :: "string set" where
  "STOPWORDS = set [
    ''a'', ''about'', ''above'', ''after'', ''again'', ''against'', ''all'', ''am'',
    ''an'', ''and'', ''any'', ''are'', ''aren't'', ''as'', ''at'', ''be'', ''because'',
    ''been'', ''before'', ''being'', ''below'', ''between'', ''both'', ''but'', ''by'',
    ''can'', ''can't'', ''could'', ''couldn't'', ''did'', ''didn't'', ''do'', ''does'',
    ''doesn't'', ''doing'', ''don't'', ''down'', ''during'', ''each'', ''few'', ''for'',
    ''from'', ''further'', ''had'', ''hadn't'', ''has'', ''hasn't'', ''have'', ''haven't'',
    ''having'', ''he'', ''he'd'', ''he'll'', ''he's'', ''her'', ''here'', ''here's'',
    ''hers'', ''herself'', ''him'', ''himself'', ''his'', ''how'', ''how's'', ''i'',
    ''i'd'', ''i'll'', ''i'm'', ''i've'', ''if'', ''in'', ''into'', ''is'', ''isn't'',
    ''it'', ''it's'', ''its'', ''itself'', ''let's'', ''me'', ''more'', ''most'',
    ''mustn't'', ''my'', ''myself'', ''no'', ''nor'', ''not'', ''of'', ''off'', ''on'',
    ''once'', ''only'', ''or'', ''other'', ''ought'', ''our'', ''ours'', ''ourselves'',
    ''out'', ''over'', ''own'', ''same'', ''she'', ''she'd'', ''she'll'', ''she's'',
    ''should'', ''shouldn't'', ''so'', ''some'', ''such'', ''than'', ''that'', ''that's'',
    ''the'', ''their'', ''theirs'', ''them'', ''themselves'', ''then'', ''there'',
    ''there's'', ''these'', ''they'', ''they'd'', ''they'll'', ''they're'', ''they've'',
    ''this'', ''those'', ''through'', ''to'', ''too'', ''under'', ''until'', ''up'',
    ''very'', ''was'', ''wasn't'', ''we'', ''we'd'', ''we'll'', ''we're'', ''we've'',
    ''were'', ''weren't'', ''what'', ''what's'', ''when'', ''when's'', ''where'',
    ''where's'', ''which'', ''while'', ''who'', ''who's'', ''whom'', ''why'', ''why's'',
    ''with'', ''won't'', ''would'', ''wouldn't'', ''you'', ''you'd'', ''you'll'',
    ''you're'', ''you've'', ''your'', ''yours'', ''yourself'', ''yourselves'', ''said'',
    ''says'', ''say'', ''report'', ''reports'', ''reported'', ''according'',
    ''according to'', ''breaking'', ''update'', ''live'', ''news'', ''story'', ''via'',
    ''source'', ''sources'', ''new'', ''latest'', ''today'', ''yesterday'', ''tomorrow'',
    ''week'', ''month'', ''year'', ''time'', ''analysis'', ''editor'', ''editorial'',
    ''exclusive'', ''media'', ''press'', ''statement'', ''officials'', ''authorities'']"

subsection \<open>Text cleaning\<close>

text \<open>
  A text is a list of \<open>char\<close>, read as the code points U+0000 to U+00FF of a Python
  string; code points above U+00FF are not represented. On this range \<^verbatim>\<open>str.lower\<close>
  changes the letters \<open>A-Z\<close> and the letters U+00C0 to U+00DE (but not the sign U+00D7)
  into the character 32 positions further, and nothing else.
\<close>

definition lower_char :: "char \<Rightarrow> char" where
  "lower_char c =
     (let n = (of_char c :: nat)
      in if (65 \<le> n \<and> n \<le> 90) \<or> (192 \<le> n \<and> n \<le> 214) \<or> (216 \<le> n \<and> n \<le> 222)
         then char_of (n + 32) else c)"

definition lower :: "string \<Rightarrow> string" where
  "lower text = map lower_char text"

text \<open>The character class \<^verbatim>\<open>[a-z0-9]\<close>.\<close>

definition in_class :: "char \<Rightarrow> bool" where
  "in_class c =
     (let n = (of_char c :: nat) in (97 \<le> n \<and> n \<le> 122) \<or> (48 \<le> n \<and> n \<le> 57))"

text \<open>
  \<^verbatim>\<open>re.sub(r"[^a-z0-9]+", " ", text)\<close>: scanning from the left, each match of the greedy
  \<^verbatim>\<open>+\<close> is a maximal run of characters outside the class, replaced by one space.
\<close>

function re_sub :: "string \<Rightarrow> string" where
  "re_sub [] = []"
| "re_sub (c # cs) =
     (if in_class c then c # re_sub cs
      else CHR '' '' # re_sub (dropWhile (\<lambda>x. \<not> in_class x) cs))"
  by pat_completeness auto
termination
  by (relation "measure length") (auto simp: length_dropWhile_le less_Suc_eq_le)

text \<open>Python's whitespace (\<^verbatim>\<open>str.isspace\<close>) among the code points up to U+00FF.\<close>

definition is_space :: "char \<Rightarrow> bool" where
  "is_space c = ((of_char c :: nat) \<in> {9, 10, 11, 12, 13, 28, 29, 30, 31, 32, 133, 160})"

definition strip :: "string \<Rightarrow> string" where
  "strip text = rev (dropWhile is_space (rev (dropWhile is_space text)))"

definition clean_text :: "string \<Rightarrow> string" where
  "clean_text text = strip (re_sub (lower text))"

text \<open>\<^verbatim>\<open>str.split()\<close> with no argument: the maximal runs of non-whitespace.\<close>

function split :: "string \<Rightarrow> string list" where
  "split [] = []"
| "split (c # cs) =
     (if is_space c then split cs
      else (c # takeWhile (\<lambda>x. \<not> is_space x) cs) # split (dropWhile (\<lambda>x. \<not> is_space x) cs))"
  by pat_completeness auto
termination
  by (relation "measure length") (auto simp: length_dropWhile_le less_Suc_eq_le)

text \<open>The test \<^verbatim>\<open>w not in STOPWORDS and len(w) > 2\<close>.\<close>

definition kept :: "string \<Rightarrow> bool" where
  "kept w = (w \<notin> STOPWORDS \<and> 2 < length w)"

subsection \<open>The sliding window of sketches\<close>

text \<open>The loop of \<^verbatim>\<open>process_text\<close> over the words of one news item.\<close>

fun update_words :: "hashfn \<Rightarrow> CountMinSketch \<Rightarrow> string list \<Rightarrow> py_error + CountMinSketch" where
  "update_words h cms [] = Inr cms"
| "update_words h cms (w # ws) =
     (if kept w then and_then (update h cms w) (\<lambda>cms'. update_words h cms' ws)
      else update_words h cms ws)"

text \<open>Lines 81 to 88 of \<^verbatim>\<open>process_text\<close>: the sketch of one news item.\<close>

definition new_snapshot :: "hashfn \<Rightarrow> string \<Rightarrow> draws \<Rightarrow> py_error + CountMinSketch" where
  "new_snapshot h text d =
     (let cleaned = clean_text text;
          words = split cleaned
      in and_then (CountMinSketch_new d) (\<lambda>cms. update_words h cms words))"

text \<open>Lines 91 to 95: \<^verbatim>\<open>window.append(cms)\<close>, then \<^verbatim>\<open>popleft\<close> when over the size.\<close>

definition push :: "'a \<Rightarrow> 'a list \<Rightarrow> 'a list" where
  "push x window =
     (let window' = window @ [x]
      in if WINDOW_SIZE < length window' then tl window' else window')"

definition process_text ::
  "hashfn \<Rightarrow> string \<Rightarrow> draws \<Rightarrow> CountMinSketch list \<Rightarrow> py_error + CountMinSketch list" where
  "process_text h text d window =
     and_then (new_snapshot h text d) (\<lambda>cms. Inr (push cms window))"

text \<open>A sequence of \<^verbatim>\<open>process_text\<close> calls, each with the values its sketch draws.\<close>

fun process_all ::
  "hashfn \<Rightarrow> (string \<times> draws) list \<Rightarrow> CountMinSketch list \<Rightarrow> py_error + CountMinSketch list" where
  "process_all h [] window = Inr window"
| "process_all h ((text, d) # rest) window =
     and_then (process_text h text d window) (\<lambda>window'. process_all h rest window')"

text \<open>The sketches those calls construct, in the order of the calls.\<close>

fun snapshots :: "hashfn \<Rightarrow> (string \<times> draws) list \<Rightarrow> py_error + CountMinSketch list" where
  "snapshots h [] = Inr []"
| "snapshots h ((text, d) # rest) =
     and_then (new_snapshot h text d) (\<lambda>cms.
     and_then (snapshots h rest) (\<lambda>others. Inr (cms # others)))"

subsection \<open>Dictionaries in insertion order\<close>

text \<open>
  A \<^verbatim>\<open>dict\<close> or \<^verbatim>\<open>defaultdict(int)\<close> is an association list in insertion order with
  distinct keys. \<open>dict_add m k v\<close> is \<^verbatim>\<open>m[k] += v\<close> on a \<^verbatim>\<open>defaultdict(int)\<close>,
  \<open>dict_set m k v\<close> is \<^verbatim>\<open>m[k] = v\<close>.
\<close>

fun dict_add :: "(string \<times> int) list \<Rightarrow> string \<Rightarrow> int \<Rightarrow> (string \<times> int) list" where
  "dict_add [] k v = [(k, 0 + v)]"
| "dict_add ((k', c) # m) k v = (if k' = k then (k', c + v) # m else (k', c) # dict_add m k v)"

fun dict_set :: "(string \<times> int) list \<Rightarrow> string \<Rightarrow> int \<Rightarrow> (string \<times> int) list" where
  "dict_set [] k v = [(k, v)]"
| "dict_set ((k', c) # m) k v = (if k' = k then (k', v) # m else (k', c) # dict_set m k v)"

text \<open>\<^verbatim>\<open>dict(items)\<close> on a list of pairs.\<close>

definition dict_of :: "(string \<times> int) list \<Rightarrow> (string \<times> int) list" where
  "dict_of items = foldl (\<lambda>m (k, v). dict_set m k v) [] items"

text \<open>
  \<^verbatim>\<open>sorted(items, key=lambda x: x[1], reverse=True)[:TOP_K]\<close>. Python's sort is stable, also
  with \<^verbatim>\<open>reverse=True\<close> (items with equal keys keep their order), which is the stable
  ascending sort on the negated count.
\<close>

definition top_k :: "(string \<times> int) list \<Rightarrow> (string \<times> int) list" where
  "top_k items = take TOP_K (sort_key (\<lambda>x. - snd x) items)"

subsection \<open>Trending words from the window\<close>

text \<open>The inner loop of \<^verbatim>\<open>get_trending_words\<close>, over \<^verbatim>\<open>list(combined_counts.keys())\<close>.\<close>

fun merge_words ::
  "hashfn \<Rightarrow> CountMinSketch \<Rightarrow> string list \<Rightarrow> (string \<times> int) list \<Rightarrow> py_error + (string \<times> int) list" where
  "merge_words h cms [] combined_counts = Inr combined_counts"
| "merge_words h cms (word # rest) combined_counts =
     and_then (estimate h cms word) (\<lambda>v. merge_words h cms rest (dict_add combined_counts word v))"

text \<open>The outer loop, over the sketches of the window.\<close>

fun merge_window ::
  "hashfn \<Rightarrow> CountMinSketch list \<Rightarrow> (string \<times> int) list \<Rightarrow> py_error + (string \<times> int) list" where
  "merge_window h [] combined_counts = Inr combined_counts"
| "merge_window h (cms # rest) combined_counts =
     and_then (merge_words h cms (map fst combined_counts) combined_counts)
       (\<lambda>combined_counts'. merge_window h rest combined_counts')"

definition get_trending_words :: "hashfn \<Rightarrow> CountMinSketch list \<Rightarrow> py_error + (string \<times> int) list" where
  "get_trending_words h window =
     and_then (merge_window h window []) (\<lambda>combined_counts. Inr (top_k combined_counts))"

subsection \<open>Probabilities\<close>

text \<open>
  \<^verbatim>\<open>count / total\<close> on two \<^verbatim>\<open>int\<close>s is Python's true division: the binary64 number
  nearest to the exact quotient, ties to the even significand, \<^verbatim>\<open>ZeroDivisionError\<close> for
  a zero divisor and \<^verbatim>\<open>OverflowError\<close> when the rounded quotient is beyond the largest
  binary64 number. A binary64 number is an integer of at most 53 bits times a power of two
  that is at least \<^verbatim>\<open>2^-1074\<close>.
\<close>

definition round_half_even :: "real \<Rightarrow> int" where
  "round_half_even y =
     (let f = \<lfloor>y\<rfloor>; r = y - of_int f
      in if r < 1 / 2 then f else if 1 / 2 < r then f + 1 else if even f then f else f + 1)"

text \<open>For positive \<open>a\<close> and \<open>b\<close>, the exponent \<open>e\<close> with \<^verbatim>\<open>2^e <= a / b < 2^(e+1)\<close>.\<close>

definition quotient_exponent :: "int \<Rightarrow> int \<Rightarrow> int" where
  "quotient_exponent a b =
     (let d = bitlen a - bitlen b
      in if 2 powi d * real_of_int b \<le> real_of_int a then d else d - 1)"

definition binary64_quotient :: "int \<Rightarrow> int \<Rightarrow> real" where
  "binary64_quotient a b =
     (if a = 0 then 0
      else
        let sign = (if (a < 0) = (b < 0) then 1 else - 1);
            e = quotient_exponent \<bar>a\<bar> \<bar>b\<bar>;
            sh = max (e - 52) (- 1074);
            m = round_half_even (real_of_int \<bar>a\<bar> / (real_of_int \<bar>b\<bar> * 2 powi sh))
        in sign * (real_of_int m * 2 powi sh))"

definition py_truediv :: "int \<Rightarrow> int \<Rightarrow> py_error + real" where
  "py_truediv a b =
     (if b = 0 then Inl ZeroDivisionError
      else
        let q = binary64_quotient a b
        in if 2 ^ 1024 \<le> \<bar>q\<bar> then Inl OverflowError else Inr q)"

text \<open>
  \<^verbatim>\<open>get_top_k_words\<close> on the global \<^verbatim>\<open>current_trending\<close>. \<open>divide_all\<close> is the dictionary
  comprehension \<^verbatim>\<open>{word: count / total for word, count in current_trending.items()}\<close>,
  which stops at the first division that raises.
\<close>

fun divide_all :: "(string \<times> int) list \<Rightarrow> int \<Rightarrow> py_error + (string \<times> real) list" where
  "divide_all [] tot = Inr []"
| "divide_all ((word, count) # rest) tot =
     and_then (py_truediv count tot) (\<lambda>p.
     and_then (divide_all rest tot) (\<lambda>ps. Inr ((word, p) # ps)))"

definition get_top_k_words :: "(string \<times> int) list \<Rightarrow> py_error + (string \<times> real) list" where
  "get_top_k_words current_trending =
     (if current_trending = [] then Inr []
      else
        let total = sum_list (map snd current_trending)
        in if 0 < total then divide_all current_trending total else Inr [])"

subsection \<open>The background loop\<close>

record pipeline =
  all_words_buffer :: "string list list"
  window :: "CountMinSketch list"
  current_trending :: "(string \<times> int) list"

text \<open>The module's globals when it is loaded.\<close>

definition initial :: pipeline where
  "initial = \<lparr> all_words_buffer = [], window = [], current_trending = [] \<rparr>"

text \<open>The nested loops that fill \<^verbatim>\<open>freq_map\<close>.\<close>

definition count_words :: "string list list \<Rightarrow> (string \<times> int) list" where
  "count_words buffer = foldl (\<lambda>freq_map w. dict_add freq_map w 1) [] (concat buffer)"

text \<open>
  One turn of the \<^verbatim>\<open>while True\<close> loop of \<^verbatim>\<open>run_background_algorithm\<close>, for the string
  \<open>content\<close> that \<^verbatim>\<open>fetch_live_news\<close> returned; writing the file and printing are left out.
\<close>

definition loop_body :: "hashfn \<Rightarrow> string \<Rightarrow> draws \<Rightarrow> pipeline \<Rightarrow> py_error + pipeline" where
  "loop_body h content d st =
     (if content \<noteq> [] then
        let cleaned = clean_text content;
            words = filter kept (split cleaned);
            buffer = all_words_buffer st @ [words];
            buffer' = (if WINDOW_SIZE < length buffer then tl buffer else buffer)
        in and_then (process_text h content d (window st)) (\<lambda>window'.
             let freq_map = count_words buffer';
                 trending = top_k freq_map
             in Inr \<lparr> all_words_buffer = buffer', window = window',
                      current_trending = dict_of trending \<rparr>)
      else Inr st)"

text \<open>The loop over the contents fetched one after the other.\<close>

fun run_background_algorithm ::
  "hashfn \<Rightarrow> (string \<times> draws) list \<Rightarrow> pipeline \<Rightarrow> py_error + pipeline" where
  "run_background_algorithm h [] st = Inr st"
| "run_background_algorithm h ((content, d) # rest) st =
     and_then (loop_body h content d st) (\<lambda>st'. run_background_algorithm h rest st')"

subsection \<open>Notions used in the statements\<close>

text \<open>
  What \<^verbatim>\<open>__init__\<close> establishes and \<^verbatim>\<open>update\<close> keeps: a positive width, one row and one
  seed for each index below \<open>depth\<close>, every row \<open>width\<close> long.
\<close>

definition wf_sketch :: "CountMinSketch \<Rightarrow> bool" where
  "wf_sketch s = (0 < width s \<and> length (table s) = nat (depth s) \<and> length (hash_seeds s) = nat (depth s)
      \<and> list_all (\<lambda>row. int (length row) = width s) (table s))"

definition column :: "hashfn \<Rightarrow> CountMinSketch \<Rightarrow> string \<Rightarrow> nat \<Rightarrow> nat" where
  "column h s item i = nat (int (h item (hash_seeds s ! i)) mod width s)"

definition cell :: "hashfn \<Rightarrow> CountMinSketch \<Rightarrow> string \<Rightarrow> nat \<Rightarrow> int" where
  "cell h s item i = table s ! i ! column h s item i"

text \<open>
  The normalisation as the specification words it: lowercase; replace every run of
  characters outside \<open>[a-z0-9]\<close> with a single space (\<open>squash\<close>, whose flag says that
  the run the scan is in has its space already); split on whitespace; drop the tokens of
  length at most 2 or in the stopword set.
\<close>

primrec squash :: "bool \<Rightarrow> string \<Rightarrow> string" where
  "squash in_run [] = []"
| "squash in_run (c # cs) =
     (if in_class c then c # squash False cs
      else if in_run then squash True cs
      else CHR '' '' # squash True cs)"

definition spec_normalize :: "string \<Rightarrow> string list" where
  "spec_normalize text =
     filter (\<lambda>w. \<not> (length w \<le> 2 \<or> w \<in> STOPWORDS)) (split (squash False (lower text)))"

subsection \<open>Concrete inputs\<close>

text \<open>
  A hash that sends everything to 0; the draws of a construction whose \<^verbatim>\<open>random.random()\<close>
  returns \<open>0.5\<close>, and of one where it returns \<open>0.0\<close>; the sketch the first one gives.
\<close>

definition zero_hash :: hashfn where
  "zero_hash item seed = 0"

definition half_draws :: draws where
  "half_draws = \<lparr> rand_float = 1 / 2, rand_int = (\<lambda>i. 1) \<rparr>"

definition zero_draws :: draws where
  "zero_draws = \<lparr> rand_float = 0, rand_int = (\<lambda>i. int i + 1) \<rparr>"

definition no_rows :: CountMinSketch where
  "no_rows = \<lparr> epsilon = 1 / 1000, delta = 1 / 100, width = 2000, depth = - 50,
               table = [], hash_seeds = [] \<rparr>"

text \<open>A ranking of ten words that occur once each, and the binary64 number nearest to 1/10.\<close>

definition ten_words :: "(string \<times> int) list" where
  "ten_words = [(''fed'', 1), (''raises'', 1), (''rates'', 1), (''amid'', 1), (''inflation'', 1),
                (''fears'', 1), (''markets'', 1), (''react'', 1), (''rate'', 1), (''hike'', 1)]"

definition tenth :: real where
  "tenth = 3602879701896397 / 2 ^ 55"

section \<open>The sketch\<close>

subsection \<open>Well-formed sketches\<close>

lemma and_then_Inr [simp]: "and_then (Inr v) f = f v"
  by (simp add: and_then_def)

lemma and_then_Inl [simp]: "and_then (Inl e) f = Inl e"
  by (simp add: and_then_def)

lemma py_pos_in_range: "i < length xs \<Longrightarrow> py_pos xs (int i) = Inr i"
  by (simp add: py_pos_def)

lemma py_pos_nonneg: "0 \<le> j \<Longrightarrow> j < int (length xs) \<Longrightarrow> py_pos xs j = Inr (nat j)"
  by (simp add: py_pos_def)

lemma column_less: "wf_sketch s \<Longrightarrow> i < nat (depth s) \<Longrightarrow> column h s item i < length (table s ! i)"
  unfolding wf_sketch_def column_def
  by (auto simp: list_all_length nat_less_iff)

lemma locate_wf:
  assumes "wf_sketch s" "i < nat (depth s)"
  shows "locate h s item i = Inr (i, column h s item i)"
proof -
  from assms have w: "0 < width s" and lt: "i < length (table s)" and ls: "i < length (hash_seeds s)"
    and row: "int (length (table s ! i)) = width s"
    by (auto simp: wf_sketch_def list_all_length)
  have "py_pos (table s ! i) (int (h item (hash_seeds s ! i)) mod width s) = Inr (column h s item i)"
    unfolding column_def using w row by (intro py_pos_nonneg) auto
  then show ?thesis
    using w lt ls by (simp add: locate_def py_pos_in_range hash_index_def)
qed

lemma wf_bump:
  assumes "wf_sketch s"
  shows "wf_sketch (s\<lparr>table := (table s)[ri := (table s ! ri)[ci := v]]\<rparr>)"
proof (cases "ri < length (table s)")
  case True
  then show ?thesis
    using assms unfolding wf_sketch_def
    by (auto simp: list_all_length nth_list_update)
next
  case False
  then have "(table s)[ri := (table s ! ri)[ci := v]] = table s" by (simp add: list_update_beyond)
  then show ?thesis using assms unfolding wf_sketch_def by simp
qed

lemma update_rows_wf:
  assumes "wf_sketch s" "list_all (\<lambda>i. i < nat (depth s)) rows"
  shows "\<exists>s'. update_rows h s item rows = Inr s' \<and> wf_sketch s' \<and> width s' = width s
      \<and> depth s' = depth s \<and> hash_seeds s' = hash_seeds s \<and> epsilon s' = epsilon s \<and> delta s' = delta s"
  using assms
proof (induction rows arbitrary: s)
  case Nil
  then show ?case by simp
next
  case (Cons i rows)
  let ?s = "s\<lparr>table := (table s)[i := (table s ! i)[column h s item i := table s ! i ! column h s item i + 1]]\<rparr>"
  have "wf_sketch ?s" using Cons.prems(1) by (rule wf_bump)
  moreover have "list_all (\<lambda>i. i < nat (depth ?s)) rows" using Cons.prems(2) by simp
  ultimately obtain s' where "update_rows h ?s item rows = Inr s'" "wf_sketch s'" "width s' = width ?s"
     "depth s' = depth ?s" "hash_seeds s' = hash_seeds ?s" "epsilon s' = epsilon ?s" "delta s' = delta ?s"
    using Cons.IH[of ?s] by blast
  then show ?case using Cons.prems by (simp add: locate_wf)
qed

lemma update_rows_table:
  assumes "wf_sketch s" "list_all (\<lambda>i. i < nat (depth s)) rows" "distinct rows"
    and "update_rows h s item rows = Inr s'" "j < nat (depth s)" "c < nat (width s)"
  shows "table s' ! j ! c = table s ! j ! c + (if j \<in> set rows \<and> c = column h s item j then 1 else 0)"
  using assms
proof (induction rows arbitrary: s)
  case Nil
  then show ?case by simp
next
  case (Cons i rows)
  let ?k = "column h s item i"
  let ?s = "s\<lparr>table := (table s)[i := (table s ! i)[?k := table s ! i ! ?k + 1]]\<rparr>"
  have i: "i < nat (depth s)" using Cons.prems(2) by simp
  have wf: "wf_sketch ?s" using Cons.prems(1) by (rule wf_bump)
  have run: "update_rows h ?s item rows = Inr s'"
    using Cons.prems(1,4) i by (simp add: locate_wf)
  have col: "column h ?s item j = column h s item j" by (simp add: column_def)
  have len: "length (table s) = nat (depth s)" "int (length (table s ! j)) = width s"
    using Cons.prems(1,5) by (auto simp: wf_sketch_def list_all_length)
  have step: "table ?s ! j ! c = table s ! j ! c + (if j = i \<and> c = ?k then 1 else 0)"
    using len Cons.prems(5,6) i by (auto simp: nth_list_update)
  have "table s' ! j ! c = table ?s ! j ! c + (if j \<in> set rows \<and> c = column h ?s item j then 1 else 0)"
    using Cons.IH[OF wf _ _ run] Cons.prems(2,3,5,6) by simp
  then show ?case
    using step col Cons.prems(3) by auto
qed

lemma update_wf:
  assumes "wf_sketch s"
  shows "\<exists>s'. update h s item = Inr s' \<and> wf_sketch s' \<and> width s' = width s
      \<and> depth s' = depth s \<and> hash_seeds s' = hash_seeds s \<and> epsilon s' = epsilon s \<and> delta s' = delta s"
  unfolding update_def using assms
  by (intro update_rows_wf) (auto simp: list_all_iff)

lemma update_cell:
  assumes "wf_sketch s" "update h s item = Inr s'" "j < nat (depth s)"
  shows "cell h s' w j = cell h s w j + (if column h s item j = column h s w j then 1 else 0)"
proof -
  obtain t where t: "update h s item = Inr t" "width t = width s" "hash_seeds t = hash_seeds s"
    using update_wf[OF assms(1)] by blast
  with assms(2) have eq: "width s' = width s" "hash_seeds s' = hash_seeds s" by auto
  have c: "column h s w j < nat (width s)"
    using assms(1) by (simp add: column_def wf_sketch_def nat_less_iff)
  have "table s' ! j ! column h s w j = table s ! j ! column h s w j
          + (if j \<in> set [0..<nat (depth s)] \<and> column h s w j = column h s item j then 1 else 0)"
    using assms c unfolding update_def
    by (intro update_rows_table) (auto simp: list_all_iff)
  then show ?thesis using assms(3) eq by (auto simp: cell_def column_def)
qed

lemma update_all_wf:
  assumes "wf_sketch s"
  shows "\<exists>s'. update_all h s ws = Inr s' \<and> wf_sketch s' \<and> width s' = width s
      \<and> depth s' = depth s \<and> hash_seeds s' = hash_seeds s \<and> epsilon s' = epsilon s \<and> delta s' = delta s"
  using assms
proof (induction ws arbitrary: s)
  case Nil
  then show ?case by simp
next
  case (Cons x ws)
  obtain t where t: "update h s x = Inr t" "wf_sketch t" "width t = width s"
      "depth t = depth s" "hash_seeds t = hash_seeds s" "epsilon t = epsilon s" "delta t = delta s"
    using update_wf[OF Cons.prems] by blast
  from Cons.IH[OF t(2)] t show ?case by auto
qed

lemma update_all_cell:
  assumes "wf_sketch s" "update_all h s ws = Inr s'" "j < nat (depth s)"
  shows "cell h s w j + int (count_list ws w) \<le> cell h s' w j"
  using assms
proof (induction ws arbitrary: s)
  case Nil
  then show ?case by simp
next
  case (Cons x ws)
  obtain t where t: "update h s x = Inr t" "wf_sketch t" "depth t = depth s"
    using update_wf[OF Cons.prems(1)] by blast
  have run: "update_all h t ws = Inr s'" using Cons.prems(2) t(1) by simp
  have "cell h t w j + int (count_list ws w) \<le> cell h s' w j"
    using Cons.IH[OF t(2) run] Cons.prems(3) t(3) by simp
  moreover have "cell h s w j + (if x = w then 1 else 0) \<le> cell h t w j"
    using update_cell[OF Cons.prems(1) t(1) Cons.prems(3), of w] by auto
  ultimately show ?case by auto
qed

lemma estimate_rows_wf:
  assumes "wf_sketch s" "list_all (\<lambda>i. i < nat (depth s)) rows"
  shows "estimate_rows h s item rows acc = Inr (acc @ map (cell h s item) rows)"
  using assms
  by (induction rows arbitrary: acc) (simp_all add: locate_wf cell_def)

lemma estimate_wf:
  assumes "wf_sketch s"
  shows "estimate h s item = py_min (map (cell h s item) [0..<nat (depth s)])"
  unfolding estimate_def using assms
  by (simp add: estimate_rows_wf list_all_iff)

lemma py_min_Min: "xs \<noteq> [] \<Longrightarrow> py_min xs = Inr (Min (set xs))"
  by (cases xs) (simp_all add: Min.set_eq_fold [symmetric])

lemma estimate_Min:
  assumes "wf_sketch s" "1 \<le> depth s"
  shows "estimate h s item = Inr (Min (cell h s item ` {0..<nat (depth s)}))"
proof -
  have "map (cell h s item) [0..<nat (depth s)] \<noteq> []" using assms(2) by simp
  then show ?thesis using assms(1) by (simp add: estimate_wf py_min_Min)
qed

lemma estimate_no_rows:
  assumes "depth s \<le> 0"
  shows "estimate h s item = Inl ValueError"
  using assms by (simp add: estimate_def)

subsection \<open>Construction\<close>

lemma depth_expr_zero: "depth_expr 0 = 10"
  by (simp add: depth_expr_def py_int_def)

lemma depth_expr_nonpos:
  assumes "0 < r" "r < 1"
  shows "depth_expr r \<le> 0" "- 99 \<le> depth_expr r"
proof -
  have v: "- 1 * (r * 100) < 0" "- 100 < - 1 * (r * 100)" using assms by auto
  then have eq: "depth_expr r = \<lceil>- 1 * (r * 100)\<rceil>"
    by (simp add: depth_expr_def py_int_def)
  show "depth_expr r \<le> 0" unfolding eq using v(1) by (simp add: ceiling_le_iff)
  have "- 100 < \<lceil>- 1 * (r * 100)\<rceil>" using v(2) by (simp add: less_ceiling_iff)
  then show "- 99 \<le> depth_expr r" unfolding eq by linarith
qed

text \<open>The \<^verbatim>\<open>or\<close> fallback is taken for the draw \<open>0.0\<close> and for no other.\<close>

lemma depth_expr_ten_iff:
  assumes "0 \<le> r" "r < 1"
  shows "depth_expr r = 10 \<longleftrightarrow> r = 0"
  using depth_expr_nonpos(1)[of r] assms depth_expr_zero by (cases "r = 0") auto

lemma new_result:
  "CountMinSketch_new d =
     Inr \<lparr> epsilon = 1 / 1000, delta = 1 / 100, width = 2000, depth = depth_expr (rand_float d),
           table = map (\<lambda>_. replicate 2000 0) [0..<nat (depth_expr (rand_float d))],
           hash_seeds = map (rand_int d) [0..<nat (depth_expr (rand_float d))] \<rparr>"
  by (simp add: CountMinSketch_new_def CountMinSketch_init_def py_int_def Let_def)

lemma new_wf:
  "\<exists>s. CountMinSketch_new d = Inr s \<and> wf_sketch s \<and> depth s = depth_expr (rand_float d)
      \<and> width s = 2000"
  by (simp add: new_result wf_sketch_def list_all_iff)

lemma new_cell:
  assumes "CountMinSketch_new d = Inr s" "j < nat (depth s)"
  shows "cell h s w j = 0"
proof -
  have "column h s w j < 2000"
    using assms by (auto simp: new_result column_def nat_less_iff)
  then show ?thesis using assms by (auto simp: new_result cell_def)
qed

subsection \<open>One-sided error\<close>

text \<open>
  On a well-formed sketch with at least one row whose counters are all 0, and so on a
  constructed sketch that has at least one row, \<^verbatim>\<open>estimate\<close> after any sequence of
  \<^verbatim>\<open>update\<close> calls returns the minimum of the counters its hashes select, and that is at
  least the number of times the word was passed to \<^verbatim>\<open>update\<close>.
\<close>

lemma zeroed_cell:
  assumes "wf_sketch s" "list_all (list_all (\<lambda>c. c = 0)) (table s)" "j < nat (depth s)"
  shows "cell h s w j = 0"
proof -
  have "column h s w j < length (table s ! j)" using assms(1,3) by (rule column_less)
  moreover have "j < length (table s)" using assms(1,3) by (simp add: wf_sketch_def)
  ultimately show ?thesis using assms(2) by (simp add: cell_def list_all_length)
qed

lemma estimate_lower_bound_zeroed:
  assumes "wf_sketch s0" "list_all (list_all (\<lambda>c. c = 0)) (table s0)" "1 \<le> depth s0"
  shows "\<exists>s v. update_all h s0 ws = Inr s \<and> estimate h s w = Inr v
     \<and> v = Min (cell h s w ` {0..<nat (depth s)}) \<and> int (count_list ws w) \<le> v"
proof -
  obtain s where s: "update_all h s0 ws = Inr s" "wf_sketch s" "depth s = depth s0"
    using update_all_wf[OF assms(1)] by blast
  let ?C = "cell h s w ` {0..<nat (depth s)}"
  have est: "estimate h s w = Inr (Min ?C)"
    using s(2,3) assms(3) by (simp add: estimate_Min)
  have ne: "?C \<noteq> {}" using s(3) assms(3) by auto
  have "int (count_list ws w) \<le> cell h s w j" if "j < nat (depth s)" for j
    using update_all_cell[OF assms(1) s(1), of j w] that s(3) zeroed_cell[OF assms(1,2), of j h w]
    by simp
  then have "int (count_list ws w) \<le> Min ?C"
    using ne by (simp add: Min_ge_iff)
  with s(1) est show ?thesis by blast
qed

lemma new_zeroed:
  assumes "CountMinSketch_new d = Inr s"
  shows "list_all (list_all (\<lambda>c. c = 0)) (table s)"
  using assms by (auto simp: new_result list_all_iff)

lemma estimate_lower_bound_with_rows:
  assumes "CountMinSketch_new d = Inr s0" "1 \<le> depth s0"
  shows "\<exists>s v. update_all h s0 ws = Inr s \<and> estimate h s w = Inr v
     \<and> v = Min (cell h s w ` {0..<nat (depth s)}) \<and> int (count_list ws w) \<le> v"
proof -
  have "wf_sketch s0" using new_wf[of d] assms(1) by auto
  then show ?thesis
    using new_zeroed[OF assms(1)] assms(2) by (rule estimate_lower_bound_zeroed)
qed

text \<open>A constructed sketch with at least one row estimates 0 before any update.\<close>

lemma estimate_fresh_with_rows:
  assumes "CountMinSketch_new d = Inr s" "1 \<le> depth s"
  shows "estimate h s w = Inr 0"
proof -
  have wf: "wf_sketch s" using new_wf[of d] assms(1) by auto
  have "cell h s w ` {0..<nat (depth s)} = {0}"
    using assms(2) new_cell[OF assms(1)] by (auto simp: image_def intro!: exI[of _ 0])
  then show ?thesis using wf assms(2) by (simp add: estimate_Min)
qed

text \<open>
  C1: for every sketch and word, \<^verbatim>\<open>estimate\<close> after any sequence of \<^verbatim>\<open>update\<close> calls
  returns the minimum over all rows, which is at least the true count. The code departs
  from this on the sketches it constructs: with the draw \<open>1/2\<close> the depth is \<open>-50\<close>,
  the sketch has no row, \<^verbatim>\<open>update\<close> changes nothing and \<^verbatim>\<open>estimate\<close> raises
  \<^verbatim>\<open>ValueError\<close> (\<^verbatim>\<open>min\<close> of an empty list) for a word that was passed to
  \<^verbatim>\<open>update\<close> once.
\<close>

theorem estimate_raises_after_update:
  "\<exists>s0 s. CountMinSketch_new half_draws = Inr s0
      \<and> update_all h s0 [''fed''] = Inr s \<and> count_list [''fed''] ''fed'' = 1
      \<and> estimate h s ''fed'' = Inl ValueError"
  by (simp add: new_result half_draws_def depth_expr_def py_int_def update_def estimate_def)

text \<open>
  C2, as amended: for a draw of \<^verbatim>\<open>random.random()\<close>, which lies in \<open>[0, 1)\<close>, the depth
  expression takes the \<^verbatim>\<open>or\<close> fallback, and the constructed sketch has depth 10,
  exactly when the draw is \<open>0.0\<close>; the table has as many rows as the depth says (none for
  a depth that is not positive).
\<close>

theorem depth_is_ten_only_for_zero_draw:
  assumes "0 \<le> rand_float d" "rand_float d < 1"
  shows "\<exists>s. CountMinSketch_new d = Inr s \<and> (depth s = 10 \<longleftrightarrow> rand_float d = 0)
     \<and> length (table s) = nat (depth s)"
  using depth_expr_ten_iff[OF assms] by (simp add: new_result)

theorem depth_is_ten_only_for_zero_draw_witness:
  "0 \<le> rand_float zero_draws \<and> rand_float zero_draws < 1
   \<and> (\<exists>s. CountMinSketch_new zero_draws = Inr s \<and> depth s = 10 \<and> length (table s) = 10)"
proof -
  have r: "0 \<le> rand_float zero_draws" "rand_float zero_draws < 1" "rand_float zero_draws = 0"
    by (simp_all add: zero_draws_def)
  from depth_is_ten_only_for_zero_draw[OF r(1,2)]
  obtain s where "CountMinSketch_new zero_draws = Inr s"
      "depth s = 10 \<longleftrightarrow> rand_float zero_draws = 0" "length (table s) = nat (depth s)"
    by blast
  with r show ?thesis by auto
qed

text \<open>
  C2 as stated fails: with the draw \<open>0.5\<close> the left operand of \<^verbatim>\<open>or\<close> is \<open>-50.0\<close>, which
  is truthy, so the fallback is not taken; the depth is \<open>-50\<close> and the table has no row.
\<close>

theorem depth_at_half_is_negative:
  "rand_float half_draws = 1 / 2 \<and> CountMinSketch_new half_draws = Inr no_rows
   \<and> depth no_rows = - 50 \<and> table no_rows = []"
  by (simp add: new_result half_draws_def no_rows_def depth_expr_def py_int_def)

text \<open>
  C6: \<^verbatim>\<open>estimate\<close> on a sketch that was never updated returns 0 and does not raise. On
  the sketch the code constructs with the draw \<open>1/2\<close> it raises \<^verbatim>\<open>ValueError\<close>, for
  every word.
\<close>

theorem estimate_fresh_sketch_raises:
  "\<exists>s. CountMinSketch_new half_draws = Inr s
      \<and> estimate h s w = Inl ValueError"
  by (simp add: new_result half_draws_def depth_expr_def py_int_def estimate_def)

section \<open>Trending words\<close>

lemma merge_window_empty: "merge_window h win [] = Inr []"
  by (induction win) simp_all

lemma top_k_empty: "top_k [] = []"
  by (simp add: top_k_def)

text \<open>
  C4: whatever the window holds, \<^verbatim>\<open>get_trending_words\<close> returns the empty list:
  \<^verbatim>\<open>combined_counts\<close> starts empty and the merge loop runs over its own keys only.
\<close>

theorem get_trending_words_always_empty: "get_trending_words h win = Inr []"
  by (simp add: get_trending_words_def merge_window_empty top_k_empty)

text \<open>
  C5: on a window with no snapshot, \<^verbatim>\<open>get_trending_words\<close> returns an empty result and
  raises nothing.
\<close>

theorem get_trending_words_empty_window: "get_trending_words h [] = Inr []"
  by (simp add: get_trending_words_def top_k_def)

section \<open>The sliding window\<close>

lemma update_words_filter: "update_words h cms ws = update_all h cms (filter kept ws)"
  by (induction ws arbitrary: cms) (simp_all add: and_then_def split: sum.splits)

lemma new_snapshot_total:
  "\<exists>cms. new_snapshot h text d = Inr cms \<and> wf_sketch cms \<and> depth cms = depth_expr (rand_float d)"
proof -
  obtain s0 where s0: "CountMinSketch_new d = Inr s0" "wf_sketch s0" "depth s0 = depth_expr (rand_float d)"
    using new_wf[of d] by blast
  obtain s where "update_all h s0 (filter kept (split (clean_text text))) = Inr s" "wf_sketch s" "depth s = depth s0"
    using update_all_wf[OF s0(2)] by blast
  then show ?thesis using s0 by (simp add: new_snapshot_def update_words_filter)
qed

lemma length_push: "length (push x win) = (if length win < WINDOW_SIZE then Suc (length win) else length win)"
  by (auto simp: push_def Let_def)

lemma process_text_total:
  "\<exists>cms. new_snapshot h text d = Inr cms \<and> process_text h text d win = Inr (push cms win)"
  using new_snapshot_total[of h "text" d] by (auto simp: process_text_def)

lemma push_drop:
  assumes "length win \<le> WINDOW_SIZE"
  shows "push x win = drop (length (win @ [x]) - WINDOW_SIZE) (win @ [x])"
proof (cases "length win < WINDOW_SIZE")
  case True
  then show ?thesis by (simp add: push_def Let_def)
next
  case False
  with assms have "length win = WINDOW_SIZE" by simp
  then show ?thesis by (cases win) (simp_all add: push_def Let_def WINDOW_SIZE_def)
qed

lemma fold_push_drop:
  assumes "length win \<le> WINDOW_SIZE"
  shows "fold push xs win = drop (length (win @ xs) - WINDOW_SIZE) (win @ xs)"
  using assms
proof (induction xs arbitrary: win)
  case Nil
  then show ?case by simp
next
  case (Cons x xs)
  define ys where "ys = win @ x # xs"
  define b where "b = Suc (length win) - WINDOW_SIZE"
  have p: "push x win = drop b (win @ [x])"
    using push_drop[OF Cons.prems, of x] by (simp add: b_def)
  have le: "length (push x win) \<le> WINDOW_SIZE" using Cons.prems by (simp add: length_push)
  have b: "b \<le> Suc (length win)" by (simp add: b_def)
  have cat: "push x win @ xs = drop b ys"
    using Cons.prems by (simp add: p ys_def b_def WINDOW_SIZE_def)
  have "fold push (x # xs) win = fold push xs (push x win)" by simp
  also have "\<dots> = drop (length (push x win @ xs) - WINDOW_SIZE) (push x win @ xs)"
    using Cons.IH[OF le] .
  also have "\<dots> = drop (length (drop b ys) - WINDOW_SIZE) (drop b ys)"
    by (simp only: cat)
  also have "\<dots> = drop (length (drop b ys) - WINDOW_SIZE + b) ys"
    by simp
  also have "length (drop b ys) - WINDOW_SIZE + b = length ys - WINDOW_SIZE"
    using Cons.prems by (auto simp: b_def ys_def)
  finally show ?case by (simp add: ys_def)
qed

lemma process_all_snapshots:
  "\<exists>pushed. snapshots h calls = Inr pushed \<and> length pushed = length calls
      \<and> process_all h calls win = Inr (fold push pushed win)"
proof (induction calls arbitrary: win)
  case Nil
  then show ?case by simp
next
  case (Cons c calls)
  obtain doc d where c: "c = (doc, d)" by (cases c) auto
  obtain cms where cms: "new_snapshot h doc d = Inr cms"
      "process_text h doc d win = Inr (push cms win)"
    using process_text_total by blast
  obtain pushed where "snapshots h calls = Inr pushed" "length pushed = length calls"
      "process_all h calls (push cms win) = Inr (fold push pushed (push cms win))"
    using Cons.IH by blast
  then show ?case using c cms by simp
qed

text \<open>
  C8: after more than \<open>WINDOW_SIZE\<close> calls of \<^verbatim>\<open>process_text\<close> the window holds exactly
  \<open>WINDOW_SIZE\<close> sketches, the ones constructed by the last \<open>WINDOW_SIZE\<close> calls in the
  order of the calls, and after any number of calls it holds at most \<open>WINDOW_SIZE\<close>.
\<close>

theorem window_keeps_last_snapshots:
  assumes "WINDOW_SIZE < length calls"
  shows "\<exists>pushed win. snapshots h calls = Inr pushed \<and> process_all h calls [] = Inr win
     \<and> length win = WINDOW_SIZE \<and> win = drop (length pushed - WINDOW_SIZE) pushed
     \<and> (\<forall>k. \<exists>w. process_all h (take k calls) [] = Inr w \<and> length w \<le> WINDOW_SIZE)"
proof -
  obtain pushed where p: "snapshots h calls = Inr pushed" "length pushed = length calls"
      "process_all h calls [] = Inr (fold push pushed [])"
    using process_all_snapshots by blast
  have f: "fold push pushed [] = drop (length pushed - WINDOW_SIZE) pushed"
    using fold_push_drop[of "[]" pushed] by simp
  have l: "length (drop (length pushed - WINDOW_SIZE) pushed) = WINDOW_SIZE"
    using assms p(2) by simp
  have "\<exists>w. process_all h (take k calls) [] = Inr w \<and> length w \<le> WINDOW_SIZE" for k
  proof -
    obtain q where q: "process_all h (take k calls) [] = Inr (fold push q [])"
      using process_all_snapshots by blast
    have "fold push q [] = drop (length q - WINDOW_SIZE) q"
      using fold_push_drop[of "[]" q] by simp
    then have "length (fold push q []) \<le> WINDOW_SIZE" by simp
    with q show ?thesis by blast
  qed
  with p f l show ?thesis by simp
qed

theorem window_keeps_last_snapshots_witness:
  "WINDOW_SIZE < length (replicate 21 (''Fed raises rates'', zero_draws))
   \<and> (\<exists>pushed win. snapshots zero_hash (replicate 21 (''Fed raises rates'', zero_draws)) = Inr pushed
     \<and> process_all zero_hash (replicate 21 (''Fed raises rates'', zero_draws)) [] = Inr win
     \<and> length win = WINDOW_SIZE \<and> win = drop (length pushed - WINDOW_SIZE) pushed
     \<and> (\<forall>k. \<exists>w. process_all zero_hash (take k (replicate 21 (''Fed raises rates'', zero_draws))) [] = Inr w
            \<and> length w \<le> WINDOW_SIZE))"
proof -
  have more: "WINDOW_SIZE < length (replicate 21 (''Fed raises rates'', zero_draws))"
    by (simp add: WINDOW_SIZE_def)
  from window_keeps_last_snapshots[OF more] show ?thesis using more by blast
qed

subsection \<open>A word of the newest document\<close>

text \<open>
  C3: \<^verbatim>\<open>get_trending_words\<close> sums the estimates of every word observed in the window, so
  that a word first seen in the newest document can be ranked. The code departs from this:
  after \<^verbatim>\<open>process_text("Bitcoin surges")\<close> on the empty window, with any draws, the word
  \<open>bitcoin\<close> is among the words passed to the sketch and \<^verbatim>\<open>get_trending_words\<close> returns
  the empty list.
\<close>

theorem trending_misses_observed_word: "\<exists>cms. process_text h ''Bitcoin surges'' d [] = Inr [cms]
     \<and> ''bitcoin'' \<in> set (filter kept (split (clean_text ''Bitcoin surges'')))
     \<and> get_trending_words h [cms] = Inr []"
proof -
  obtain cms where "process_text h ''Bitcoin surges'' d [] = Inr (push cms [])"
    using process_text_total by blast
  then have 1: "process_text h ''Bitcoin surges'' d [] = Inr [cms]"
    by (simp add: push_def WINDOW_SIZE_def)
  have 2: "''bitcoin'' \<in> set (filter kept (split (clean_text ''Bitcoin surges'')))"
    by code_simp
  have 3: "get_trending_words h [cms] = Inr []"
    by (simp add: get_trending_words_def merge_window_empty top_k_empty)
  from 1 2 3 show ?thesis by blast
qed

section \<open>Probabilities\<close>

subsection \<open>The rounded quotient\<close>

lemma round_half_even_close: "\<bar>real_of_int (round_half_even y) - y\<bar> \<le> 1 / 2"
proof -
  have "real_of_int \<lfloor>y\<rfloor> \<le> y" "y < real_of_int \<lfloor>y\<rfloor> + 1" by linarith+
  then show ?thesis by (auto simp: round_half_even_def Let_def)
qed

lemma round_half_even_nonneg: "0 \<le> y \<Longrightarrow> 0 \<le> round_half_even y"
  by (auto simp: round_half_even_def Let_def)

lemma bitlen_powi_bounds:
  assumes "0 < x"
  shows "2 powi (bitlen x - 1) \<le> real_of_int x" "real_of_int x < 2 powi (bitlen x)"
proof -
  have b: "1 \<le> bitlen x" using assms by (auto simp: bitlen_alt_def)
  have "(2::int) ^ nat (bitlen x - 1) \<le> x" "x < 2 ^ nat (bitlen x)"
    using bitlen_bounds[OF assms] by auto
  then have "real_of_int (2 ^ nat (bitlen x - 1)) \<le> real_of_int x"
      "real_of_int x < real_of_int (2 ^ nat (bitlen x))"
    by linarith+
  then show "2 powi (bitlen x - 1) \<le> real_of_int x" "real_of_int x < 2 powi (bitlen x)"
    using b by (simp_all add: power_int_def)
qed

lemma quotient_exponent_bounds:
  assumes "0 < a" "0 < b"
  shows "2 powi (quotient_exponent a b) \<le> real_of_int a / real_of_int b"
    and "real_of_int a / real_of_int b < 2 powi (quotient_exponent a b + 1)"
proof -
  define d where "d = bitlen a - bitlen b"
  have bp: "0 < real_of_int b" using assms by simp
  have a1: "2 powi (bitlen a - 1) \<le> real_of_int a" and a2: "real_of_int a < 2 powi (bitlen a)"
    using bitlen_powi_bounds[OF assms(1)] by auto
  have b1: "2 powi (bitlen b - 1) \<le> real_of_int b" and b2: "real_of_int b < 2 powi (bitlen b)"
    using bitlen_powi_bounds[OF assms(2)] by auto
  have up: "real_of_int a < 2 powi (d + 1) * real_of_int b"
  proof -
    have "2 powi (d + 1) * (2::real) powi (bitlen b - 1) = 2 powi (bitlen a)"
      by (simp add: d_def power_int_add [symmetric])
    moreover have "2 powi (d + 1) * (2::real) powi (bitlen b - 1) \<le> 2 powi (d + 1) * real_of_int b"
      using b1 by (simp add: mult_left_mono)
    ultimately show ?thesis using a2 by linarith
  qed
  have lo: "2 powi (d - 1) * real_of_int b < real_of_int a"
  proof -
    have "2 powi (d - 1) * (2::real) powi (bitlen b) = 2 powi (bitlen a - 1)"
      by (simp add: d_def power_int_add [symmetric])
    moreover have "2 powi (d - 1) * real_of_int b < 2 powi (d - 1) * (2::real) powi (bitlen b)"
      using b2 by (simp add: mult_strict_left_mono)
    ultimately show ?thesis using a1 by linarith
  qed
  show "2 powi (quotient_exponent a b) \<le> real_of_int a / real_of_int b"
    using lo bp by (auto simp: quotient_exponent_def Let_def d_def [symmetric] pos_le_divide_eq)
  show "real_of_int a / real_of_int b < 2 powi (quotient_exponent a b + 1)"
    using up bp by (auto simp: quotient_exponent_def Let_def d_def [symmetric] pos_divide_less_eq not_le)
qed

text \<open>
  The rounded quotient of two positive integers is within half a unit in the last place of
  the exact one: a relative error of at most \<^verbatim>\<open>2^-53\<close>, or an absolute error of at most
  \<^verbatim>\<open>2^-1075\<close> when the result is subnormal.
\<close>

lemma binary64_quotient_error:
  assumes "0 < a" "0 < b"
  shows "\<bar>binary64_quotient a b - real_of_int a / real_of_int b\<bar>
           \<le> max (real_of_int a / real_of_int b) (2 powi (- 1022)) / 2 ^ 53"
proof -
  define x where "x = real_of_int a / real_of_int b"
  define e where "e = quotient_exponent a b"
  define sh where "sh = max (e - 52) (- 1074)"
  define p :: real where "p = 2 powi sh"
  define m where "m = round_half_even (x / p)"
  have p: "0 < p" by (simp add: p_def)
  have q: "binary64_quotient a b = real_of_int m * p"
    using assms by (simp add: binary64_quotient_def Let_def m_def p_def sh_def e_def x_def)
  have "\<bar>real_of_int m - x / p\<bar> \<le> 1 / 2" unfolding m_def by (rule round_half_even_close)
  then have "\<bar>real_of_int m - x / p\<bar> * p \<le> 1 / 2 * p" using p by (simp add: mult_right_mono)
  moreover have "\<bar>real_of_int m - x / p\<bar> * p = \<bar>real_of_int m * p - x\<bar>"
  proof -
    have "\<bar>real_of_int m - x / p\<bar> * p = \<bar>(real_of_int m - x / p) * p\<bar>"
      using p by (simp add: abs_mult)
    also have "(real_of_int m - x / p) * p = real_of_int m * p - x"
      using p by (simp add: left_diff_distrib)
    finally show ?thesis .
  qed
  ultimately have err: "\<bar>real_of_int m * p - x\<bar> \<le> p / 2" by simp
  have lo: "2 powi e \<le> x" unfolding e_def x_def using assms by (rule quotient_exponent_bounds)
  have "p / 2 \<le> max x (2 powi (- 1022)) / 2 ^ 53"
  proof (cases "- 1074 \<le> e - 52")
    case True
    then have sh: "sh = e + (- 52)" by (simp add: sh_def)
    have "p = 2 powi e * 2 powi (- 52)"
      unfolding p_def sh by (rule power_int_add) simp
    moreover have "(2::real) powi (- 52) = 1 / 2 ^ 52" by (simp add: power_int_minus)
    ultimately have "p / 2 = 2 powi e / 2 ^ 53" by simp
    also have "\<dots> \<le> x / 2 ^ 53" using lo by (simp add: divide_right_mono)
    also have "\<dots> \<le> max x (2 powi (- 1022)) / 2 ^ 53" by (simp add: divide_right_mono)
    finally show ?thesis .
  next
    case False
    then have "p = 2 powi (- 1074)" by (simp add: p_def sh_def max_def)
    then have "p / 2 = 2 powi (- 1022) / 2 ^ 53"
      by (simp add: power_int_minus)
    also have "\<dots> \<le> max x (2 powi (- 1022)) / 2 ^ 53" by (simp add: divide_right_mono)
    finally show ?thesis .
  qed
  with err show ?thesis unfolding q x_def by linarith
qed

lemma binary64_quotient_nonneg:
  assumes "0 \<le> a" "0 < b"
  shows "0 \<le> binary64_quotient a b"
proof (cases "a = 0")
  case True
  then show ?thesis by (simp add: binary64_quotient_def)
next
  case False
  with assms have "0 < a" by simp
  then have "0 \<le> real_of_int a / (real_of_int b * 2 powi s)" for s
    using assms(2) by simp
  then show ?thesis
    using \<open>0 < a\<close> assms(2)
    by (simp add: binary64_quotient_def Let_def round_half_even_nonneg)
qed

lemma py_truediv_fraction:
  assumes "0 \<le> a" "a \<le> b" "0 < b"
  shows "py_truediv a b = Inr (binary64_quotient a b)"
proof (cases "a = 0")
  case True
  then show ?thesis using assms by (simp add: py_truediv_def binary64_quotient_def)
next
  case False
  with assms have a: "0 < a" by simp
  let ?x = "real_of_int a / real_of_int b"
  have x: "?x \<le> 1" using assms by simp
  have "(2::real) powi (- 1022) \<le> 1" by (simp add: power_int_minus inverse_le_1_iff)
  with x have "max ?x (2 powi (- 1022)) / 2 ^ 53 \<le> 1" by simp
  with binary64_quotient_error[OF a assms(3)] x have "binary64_quotient a b \<le> 2" by linarith
  moreover have "(2::real) < 2 ^ 1024" by simp
  moreover have "0 \<le> binary64_quotient a b" using assms by (simp add: binary64_quotient_nonneg)
  ultimately show ?thesis using assms(3) by (simp add: py_truediv_def Let_def)
qed

lemma divide_all_Inr:
  assumes "divide_all current tot = Inr probs" "tot \<noteq> 0"
  shows "probs = map (\<lambda>(word, count). (word, binary64_quotient count tot)) current"
  using assms
proof (induction current arbitrary: probs)
  case Nil
  then show ?case by simp
next
  case (Cons a current)
  obtain word count where a: "a = (word, count)" by (cases a) auto
  from Cons.prems show ?case
    using Cons.IH
    by (auto simp: a py_truediv_def and_then_def Let_def split: sum.splits if_splits)
qed

lemma quotient_error_term:
  assumes "0 \<le> c" "0 < t"
  shows "\<bar>binary64_quotient c t - real_of_int c / real_of_int t\<bar>
           \<le> (real_of_int c / real_of_int t + 2 powi (- 1022)) / 2 ^ 53"
proof (cases "c = 0")
  case True
  then show ?thesis by (simp add: binary64_quotient_def)
next
  case False
  with assms have c: "0 < c" by simp
  have "max (real_of_int c / real_of_int t) (2 powi (- 1022))
          \<le> real_of_int c / real_of_int t + 2 powi (- 1022)"
    using c assms(2) by simp
  then have "max (real_of_int c / real_of_int t) (2 powi (- 1022)) / 2 ^ 53
          \<le> (real_of_int c / real_of_int t + 2 powi (- 1022)) / 2 ^ 53"
    by (simp add: divide_right_mono)
  with binary64_quotient_error[OF c assms(2)] show ?thesis by linarith
qed

lemma sum_quotient_error:
  assumes "list_all (\<lambda>x. 0 \<le> snd x) current" "0 < t"
  shows "\<bar>sum_list (map (\<lambda>x. binary64_quotient (snd x) t) current)
            - real_of_int (sum_list (map snd current)) / real_of_int t\<bar>
           \<le> (real_of_int (sum_list (map snd current)) / real_of_int t
                + real (length current) * 2 powi (- 1022)) / 2 ^ 53"
  using assms(1)
proof (induction current)
  case Nil
  then show ?case by simp
next
  case (Cons a current)
  from Cons.prems have a: "0 \<le> snd a" and rest: "list_all (\<lambda>x. 0 \<le> snd x) current" by simp_all
  note h = quotient_error_term[OF a assms(2)] Cons.IH[OF rest]
  have "\<bar>sum_list (map (\<lambda>x. binary64_quotient (snd x) t) (a # current))
            - real_of_int (sum_list (map snd (a # current))) / real_of_int t\<bar>
      \<le> \<bar>binary64_quotient (snd a) t - real_of_int (snd a) / real_of_int t\<bar>
        + \<bar>sum_list (map (\<lambda>x. binary64_quotient (snd x) t) current)
            - real_of_int (sum_list (map snd current)) / real_of_int t\<bar>"
    by (simp add: add_divide_distrib)
  also have "\<dots> \<le> (real_of_int (snd a) / real_of_int t + 2 powi (- 1022)) / 2 ^ 53
        + (real_of_int (sum_list (map snd current)) / real_of_int t
                + real (length current) * 2 powi (- 1022)) / 2 ^ 53"
    using h by linarith
  also have "\<dots> = (real_of_int (sum_list (map snd (a # current))) / real_of_int t
                + real (length (a # current)) * 2 powi (- 1022)) / 2 ^ 53"
    by (simp add: add_divide_distrib algebra_simps)
  finally show ?case .
qed

subsection \<open>The counts that are published\<close>

text \<open>Every count the background loop stores in \<^verbatim>\<open>current_trending\<close> is at least 1.\<close>

lemma dict_add_counts:
  "list_all (\<lambda>x. 1 \<le> snd x) m \<Longrightarrow> 1 \<le> v \<Longrightarrow> list_all (\<lambda>x. 1 \<le> snd x) (dict_add m k v)"
  by (induction m k v rule: dict_add.induct) auto

lemma dict_set_counts:
  "list_all (\<lambda>x. 1 \<le> snd x) m \<Longrightarrow> 1 \<le> v \<Longrightarrow> list_all (\<lambda>x. 1 \<le> snd x) (dict_set m k v)"
  by (induction m k v rule: dict_set.induct) auto

lemma count_words_counts: "list_all (\<lambda>x. 1 \<le> snd x) (count_words buffer)"
proof -
  have "list_all (\<lambda>x. 1 \<le> snd x) m \<Longrightarrow>
        list_all (\<lambda>x. 1 \<le> snd x) (foldl (\<lambda>freq_map w. dict_add freq_map w 1) m ws)" for m ws
    by (induction ws arbitrary: m) (simp_all add: dict_add_counts)
  then show ?thesis by (simp add: count_words_def)
qed

lemma top_k_counts: "list_all (\<lambda>x. 1 \<le> snd x) items \<Longrightarrow> list_all (\<lambda>x. 1 \<le> snd x) (top_k items)"
proof -
  assume a: "list_all (\<lambda>x. 1 \<le> snd x) items"
  have "set (top_k items) \<subseteq> set items"
    using set_take_subset[of TOP_K "sort_key (\<lambda>x. - snd x) items"] by (simp add: top_k_def)
  with a show ?thesis by (auto simp: list_all_iff)
qed

lemma dict_of_counts: "list_all (\<lambda>x. 1 \<le> snd x) items \<Longrightarrow> list_all (\<lambda>x. 1 \<le> snd x) (dict_of items)"
proof -
  have "list_all (\<lambda>x. 1 \<le> snd x) m \<Longrightarrow> list_all (\<lambda>x. 1 \<le> snd x) items \<Longrightarrow>
        list_all (\<lambda>x. 1 \<le> snd x) (foldl (\<lambda>m (k, v). dict_set m k v) m items)" for m
    by (induction items arbitrary: m) (auto simp: dict_set_counts)
  then show "list_all (\<lambda>x. 1 \<le> snd x) items \<Longrightarrow> list_all (\<lambda>x. 1 \<le> snd x) (dict_of items)"
    by (simp add: dict_of_def)
qed

lemma loop_body_counts:
  assumes "list_all (\<lambda>x. 1 \<le> snd x) (current_trending st)" "loop_body h content d st = Inr st'"
  shows "list_all (\<lambda>x. 1 \<le> snd x) (current_trending st')"
proof (cases "content = []")
  case True
  then show ?thesis using assms by (simp add: loop_body_def)
next
  case False
  obtain c where "process_text h content d (window st) = Inr (push c (window st))"
    using process_text_total by blast
  then show ?thesis
    using False assms(2)
    by (auto simp: loop_body_def Let_def intro!: dict_of_counts top_k_counts count_words_counts)
qed

lemma published_counts_positive:
  assumes "run_background_algorithm h run initial = Inr st"
  shows "list_all (\<lambda>x. 1 \<le> snd x) (current_trending st)"
proof -
  have "list_all (\<lambda>x. 1 \<le> snd x) (current_trending s0) \<Longrightarrow> run_background_algorithm h run s0 = Inr st
      \<Longrightarrow> list_all (\<lambda>x. 1 \<le> snd x) (current_trending st)" for s0
  proof (induction run arbitrary: s0)
    case Nil
    then show ?case by simp
  next
    case (Cons a run)
    obtain content d where a: "a = (content, d)" by (cases a) auto
    from Cons.prems(2) obtain s1 where s1: "loop_body h content d s0 = Inr s1"
        "run_background_algorithm h run s1 = Inr st"
      by (auto simp: a and_then_def split: sum.splits)
    from Cons.IH[OF loop_body_counts[OF Cons.prems(1) s1(1)] s1(2)] show ?case .
  qed
  from this[of initial] show ?thesis using assms by (simp add: initial_def)
qed

text \<open>
  On counts that are not negative no division raises; so \<^verbatim>\<open>get_top_k_words\<close> returns on
  everything the background loop publishes.
\<close>

lemma count_le_total:
  fixes current :: "(string \<times> int) list"
  assumes "list_all (\<lambda>x. 0 \<le> snd x) current" "x \<in> set current"
  shows "snd x \<le> sum_list (map snd current)"
  using assms
proof (induction current)
  case Nil
  then show ?case by simp
next
  case (Cons a current)
  have "0 \<le> sum_list (map snd current)"
  proof (rule sum_list_nonneg)
    fix y assume "y \<in> set (map snd current)"
    then show "0 \<le> y" using Cons.prems(1) by (auto simp: list_all_iff)
  qed
  then show ?case using Cons by auto
qed

lemma divide_all_total:
  assumes "list_all (\<lambda>x. 0 \<le> snd x \<and> snd x \<le> t) current" "0 < t"
  shows "\<exists>probs. divide_all current t = Inr probs"
  using assms(1)
proof (induction current)
  case Nil
  then show ?case by simp
next
  case (Cons a current)
  obtain word count where a: "a = (word, count)" by (cases a) auto
  from Cons.prems a have "py_truediv count t = Inr (binary64_quotient count t)"
    using assms(2) by (intro py_truediv_fraction) auto
  moreover from Cons obtain probs where "divide_all current t = Inr probs" by auto
  ultimately show ?case by (simp add: a)
qed

lemma get_top_k_words_total:
  assumes "list_all (\<lambda>x. 0 \<le> snd x) current"
  shows "\<exists>probs. get_top_k_words current = Inr probs"
proof (cases "current \<noteq> [] \<and> 0 < sum_list (map snd current)")
  case True
  have "list_all (\<lambda>x. 0 \<le> snd x \<and> snd x \<le> sum_list (map snd current)) current"
    using assms count_le_total[OF assms] by (auto simp: list_all_iff)
  from divide_all_total[OF this] True show ?thesis
    by (simp add: get_top_k_words_def Let_def)
next
  case False
  then show ?thesis by (auto simp: get_top_k_words_def Let_def)
qed

lemma published_probabilities_total:
  assumes "run_background_algorithm h run initial = Inr st"
  shows "\<exists>probs. get_top_k_words (current_trending st) = Inr probs"
proof -
  have "list_all (\<lambda>x. 1 \<le> snd x) (current_trending st)"
    using assms by (rule published_counts_positive)
  then have "list_all (\<lambda>x. 0 \<le> snd x) (current_trending st)"
    by (auto simp: list_all_iff)
  then show ?thesis by (rule get_top_k_words_total)
qed

text \<open>The division can raise on other integers: the quotient of \<^verbatim>\<open>2^1024\<close> by 1 overflows.\<close>

lemma round_half_even_of_int: "round_half_even (real_of_int k) = k"
  by (simp add: round_half_even_def)

lemma binary64_quotient_power:
  assumes "52 \<le> n"
  shows "binary64_quotient (2 ^ n) 1 = 2 ^ n"
proof -
  have b1: "bitlen 1 = 1" by (simp add: compute_bitlen)
  have b: "bitlen (2 ^ n) = int n + 1" using bitlen_pow2[of 1 n] b1 by simp
  have e: "quotient_exponent (2 ^ n) 1 = int n"
    by (simp add: quotient_exponent_def b b1)
  have sh: "max (int n - 52) (- 1074) = int (n - 52)" using assms by simp
  have pw: "(2::real) ^ n = 2 ^ 52 * 2 ^ (n - 52)"
    using power_add[of "2::real" 52 "n - 52"] assms by simp
  then have x: "real_of_int (2 ^ n) / (real_of_int 1 * 2 powi int (n - 52)) = real_of_int (2 ^ 52)"
    by simp
  have m: "round_half_even (real_of_int (2 ^ n) / (real_of_int 1 * 2 powi int (n - 52))) = 2 ^ 52"
    unfolding x by (rule round_half_even_of_int)
  have "binary64_quotient (2 ^ n) 1 = real_of_int (2 ^ 52) * 2 powi int (n - 52)"
  proof -
    have a: "\<bar>(2::int) ^ n\<bar> = 2 ^ n" "\<bar>1::int\<bar> = 1" by simp_all
    show ?thesis
      unfolding binary64_quotient_def Let_def a e sh m by simp
  qed
  also have "\<dots> = 2 ^ n" using pw by simp
  finally show ?thesis .
qed

lemma overflow_path: "py_truediv (2 ^ 1024) 1 = Inl OverflowError"
proof -
  have "binary64_quotient (2 ^ 1024) 1 = 2 ^ 1024" by (rule binary64_quotient_power) simp
  then show ?thesis unfolding py_truediv_def Let_def by (simp only:) simp
qed

subsection \<open>Ten words that occur once each\<close>

text \<open>
  Each probability is the binary64 number nearest to 1/10, and the ten of them add up to
  \<^verbatim>\<open>1 + 2^-54\<close>, not to 1.
\<close>

lemma tenth_quotient: "binary64_quotient 1 10 = tenth"
  by (simp add: binary64_quotient_def quotient_exponent_def round_half_even_def compute_bitlen tenth_def)

lemma ten_words_result:
  "get_top_k_words ten_words = Inr (map (\<lambda>(word, count). (word, tenth)) ten_words)"
proof -
  have "py_truediv 1 10 = Inr tenth"
    using py_truediv_fraction[of 1 10] by (simp add: tenth_quotient)
  then show ?thesis by (simp add: get_top_k_words_def ten_words_def)
qed

lemma ten_words_sum: "sum_list (map snd (map (\<lambda>(word, count). (word, tenth)) ten_words)) = 1 + 1 / 2 ^ 54"
  by (simp add: ten_words_def tenth_def)

subsection \<open>Normalisation\<close>

text \<open>
  C9: when \<^verbatim>\<open>get_top_k_words\<close> returns a non-empty mapping for counts that are not
  negative, each word's probability is its count divided by the sum of the counts of the
  returned words (Python's true division: the correctly rounded binary64 quotient, within
  \<^verbatim>\<open>2^-53\<close> of the exact quotient in relative terms, or within \<^verbatim>\<open>2^-1075\<close> when subnormal),
  and the returned probabilities sum to 1 up to a floating tolerance: for \<open>n\<close> returned
  words their exact sum differs from 1 by at most \<^verbatim>\<open>(1 + n * 2^-1022) * 2^-53\<close>, which is
  below \<^verbatim>\<open>1.2e-16\<close> for any ranking that fits in memory.
\<close>

theorem probabilities_normalised:
  assumes "list_all (\<lambda>x. 0 \<le> snd x) current" "get_top_k_words current = Inr probs" "probs \<noteq> []"
  shows "probs = map (\<lambda>(word, count). (word, binary64_quotient count (sum_list (map snd current)))) current
    \<and> list_all (\<lambda>(word, count).
          \<bar>binary64_quotient count (sum_list (map snd current))
             - real_of_int count / real_of_int (sum_list (map snd current))\<bar>
            \<le> (real_of_int count / real_of_int (sum_list (map snd current)) + 2 powi (- 1022)) / 2 ^ 53)
        current
    \<and> \<bar>sum_list (map snd probs) - 1\<bar> \<le> (1 + real (length probs) * 2 powi (- 1022)) / 2 ^ 53"
proof -
  let ?t = "sum_list (map snd current)"
  from assms(2,3) have t: "0 < ?t" and d: "divide_all current ?t = Inr probs"
    by (auto simp: get_top_k_words_def Let_def split: if_splits)
  have eq: "probs = map (\<lambda>(word, count). (word, binary64_quotient count ?t)) current"
    using divide_all_Inr[OF d] t by simp
  then have s: "map snd probs = map (\<lambda>x. binary64_quotient (snd x) ?t) current"
    by (simp add: case_prod_unfold comp_def)
  have l: "length probs = length current" using eq by simp
  have each: "list_all (\<lambda>(word, count).
          \<bar>binary64_quotient count ?t - real_of_int count / real_of_int ?t\<bar>
            \<le> (real_of_int count / real_of_int ?t + 2 powi (- 1022)) / 2 ^ 53) current"
  proof -
    have "\<bar>binary64_quotient (snd x) ?t - real_of_int (snd x) / real_of_int ?t\<bar>
            \<le> (real_of_int (snd x) / real_of_int ?t + 2 powi (- 1022)) / 2 ^ 53"
      if "x \<in> set current" for x
    proof -
      from that assms(1) have "0 \<le> snd x" by (auto simp: list_all_iff)
      then show ?thesis using t by (rule quotient_error_term)
    qed
    then show ?thesis unfolding list_all_iff case_prod_unfold by blast
  qed
  have one: "real_of_int ?t / real_of_int ?t = 1" using t by simp
  have "\<bar>sum_list (map snd probs) - 1\<bar> \<le> (1 + real (length probs) * 2 powi (- 1022)) / 2 ^ 53"
    using sum_quotient_error[OF assms(1) t] by (simp only: s l one)
  with eq each show ?thesis by (intro conjI)
qed

theorem probabilities_normalised_witness:
  "list_all (\<lambda>x. 0 \<le> snd x) ten_words
   \<and> get_top_k_words ten_words = Inr (map (\<lambda>(word, count). (word, tenth)) ten_words)
   \<and> map (\<lambda>(word, count). (word, tenth)) ten_words \<noteq> []
   \<and> \<bar>sum_list (map snd (map (\<lambda>(word, count). (word, tenth)) ten_words)) - 1\<bar>
        \<le> (1 + real (length (map (\<lambda>(word, count). (word, tenth)) ten_words)) * 2 powi (- 1022)) / 2 ^ 53"
proof -
  have 1: "list_all (\<lambda>x. 0 \<le> snd x) ten_words" by (simp add: ten_words_def)
  have 3: "map (\<lambda>(word, count). (word, tenth)) ten_words \<noteq> []" by (simp add: ten_words_def)
  from probabilities_normalised[OF 1 ten_words_result 3] show ?thesis using 1 ten_words_result 3 by blast
qed

section \<open>Text cleaning\<close>

lemma squash_in_run: "squash True cs = squash False (dropWhile (\<lambda>x. \<not> in_class x) cs)"
  by (induction cs) simp_all

lemma re_sub_squash: "re_sub cs = squash False cs"
  by (induction cs rule: re_sub.induct) (simp_all add: squash_in_run)

lemma split_drop_spaces: "split (dropWhile is_space cs) = split cs"
  by (induction cs) simp_all

lemma split_spaces: "list_all is_space sp \<Longrightarrow> split sp = []"
  by (induction sp) simp_all

lemma split_append_spaces:
  assumes "list_all is_space sp"
  shows "split (cs @ sp) = split cs"
proof (induction cs rule: split.induct)
  case 1
  show ?case using assms by (simp add: split_spaces)
next
  case (2 c cs)
  show ?case
  proof (cases "is_space c")
    case True
    with 2 show ?thesis by simp
  next
    case False
    let ?P = "\<lambda>x. \<not> is_space x"
    have sp: "takeWhile ?P sp = []" "dropWhile ?P sp = sp"
      using assms by (cases sp; simp)+
    have t: "takeWhile ?P (cs @ sp) = takeWhile ?P cs"
    proof (cases "\<forall>x\<in>set cs. ?P x")
      case True
      then have tw: "takeWhile ?P cs = cs" by (simp add: takeWhile_eq_all_conv)
      have "takeWhile ?P (cs @ sp) = cs @ takeWhile ?P sp"
        using True by (simp add: takeWhile_append)
      then show ?thesis by (simp only: sp tw append_Nil2)
    next
      case False
      then show ?thesis by (auto simp: takeWhile_append)
    qed
    have d: "dropWhile ?P (cs @ sp) = dropWhile ?P cs @ sp"
      using sp by (auto simp: dropWhile_append)
    from 2(2)[OF False] t d False show ?thesis by simp
  qed
qed

lemma split_strip: "split (strip cs) = split cs"
proof -
  let ?ys = "dropWhile is_space cs"
  have "?ys = rev (dropWhile is_space (rev ?ys)) @ rev (takeWhile is_space (rev ?ys))"
    by (metis rev_append rev_rev_ident takeWhile_dropWhile_id)
  moreover have "list_all is_space (rev (takeWhile is_space (rev ?ys)))"
    by (auto simp: list_all_iff dest: set_takeWhileD)
  ultimately have "split ?ys = split (rev (dropWhile is_space (rev ?ys)))"
    using split_append_spaces by metis
  then show ?thesis by (simp add: strip_def split_drop_spaces)
qed

lemma kept_words_spec: "filter kept (split (clean_text doc)) = spec_normalize doc"
proof -
  have "kept = (\<lambda>w. \<not> (length w \<le> 2 \<or> w \<in> STOPWORDS))"
    by (auto simp: kept_def fun_eq_iff)
  then show ?thesis
    by (simp add: spec_normalize_def clean_text_def split_strip re_sub_squash)
qed

lemma half_snapshot: "new_snapshot h doc half_draws = Inr no_rows"
proof -
  have n: "CountMinSketch_new half_draws = Inr no_rows"
    by (simp add: new_result half_draws_def no_rows_def depth_expr_def py_int_def)
  have "update_all h no_rows ws = Inr no_rows" for ws
    by (induction ws) (simp_all add: update_def no_rows_def)
  then show ?thesis by (simp add: new_snapshot_def n update_words_filter)
qed

text \<open>Calls whose sketches have no row fill the window with such sketches.\<close>

lemma process_all_half:
  assumes "n + m \<le> WINDOW_SIZE"
  shows "process_all h (replicate n (doc, half_draws)) (replicate m no_rows) = Inr (replicate (n + m) no_rows)"
  using assms
proof (induction n arbitrary: m)
  case 0
  then show ?case by simp
next
  case (Suc n)
  have "push no_rows (replicate m no_rows) = replicate (Suc m) no_rows"
    using Suc.prems by (simp add: push_def replicate_append_same)
  then show ?case
    using Suc.IH[of "Suc m"] Suc.prems by (simp add: process_text_def half_snapshot)
qed

text \<open>
  C10: the words that reach the sketch are those of the specification's normalisation
  (lowercase, runs outside \<open>[a-z0-9]\<close> to one space, split on whitespace, drop the tokens
  of length at most 2 and the stopwords); the empty text gives no word; \<^verbatim>\<open>process_text\<close>
  never raises and always pushes a sketch, also for a document of stopwords only, after
  which the window is one longer when it held fewer than \<open>WINDOW_SIZE\<close> sketches and, the
  oldest sketch being evicted, as long as before when it was full.
\<close>

theorem normalisation_and_push:
  "filter kept (split (clean_text doc)) = spec_normalize doc
   \<and> filter kept (split (clean_text [])) = []
   \<and> (\<exists>cms. process_text h doc d win = Inr (push cms win)
         \<and> length (push cms win) = (if length win < WINDOW_SIZE then length win + 1 else length win))"
proof -
  have e: "filter kept (split (clean_text [])) = []"
    by (simp add: clean_text_def lower_def strip_def)
  obtain cms where "process_text h doc d win = Inr (push cms win)"
    using process_text_total by blast
  then show ?thesis using e by (auto simp: kept_words_spec length_push)
qed

text \<open>
  The full window at work: after \<open>WINDOW_SIZE\<close> calls the window holds 20 sketches; a
  document of stopwords only is then pushed like any other, the oldest sketch is evicted,
  and the length is 20 again.
\<close>

lemma full_window_keeps_its_length:
  "filter kept (split (clean_text ''the and of'')) = []
   \<and> process_all zero_hash (replicate WINDOW_SIZE (''Fed raises rates'', half_draws)) []
       = Inr (replicate WINDOW_SIZE no_rows)
   \<and> length (replicate WINDOW_SIZE no_rows) = 20
   \<and> map_sum id length
        (process_text zero_hash ''the and of'' half_draws (replicate WINDOW_SIZE no_rows)) = Inr 20"
proof -
  have 1: "filter kept (split (clean_text ''the and of'')) = []" by code_simp
  have 2: "process_all zero_hash (replicate WINDOW_SIZE (''Fed raises rates'', half_draws)) []
       = Inr (replicate WINDOW_SIZE no_rows)"
    using process_all_half[of WINDOW_SIZE 0] by simp
  have 3: "process_text zero_hash ''the and of'' half_draws (replicate WINDOW_SIZE no_rows)
       = Inr (replicate WINDOW_SIZE no_rows)"
    by (simp add: process_text_def half_snapshot push_def replicate_append_same)
  from 1 2 show ?thesis unfolding 3 by (simp add: WINDOW_SIZE_def)
qed

section \<open>The background loop\<close>

text \<open>
  The loop keeps the word lists of the last \<open>WINDOW_SIZE\<close> non-empty contents in
  \<^verbatim>\<open>all_words_buffer\<close>, in the order they were fetched.
\<close>

lemma loop_body_buffer:
  "\<exists>st'. loop_body h content d st = Inr st'
     \<and> all_words_buffer st' =
          (if content \<noteq> [] then push (filter kept (split (clean_text content))) (all_words_buffer st)
           else all_words_buffer st)"
proof (cases "content = []")
  case True
  then show ?thesis by (simp add: loop_body_def)
next
  case False
  obtain c where "process_text h content d (window st) = Inr (push c (window st))"
    using process_text_total by blast
  then show ?thesis using False by (simp add: loop_body_def Let_def push_def)
qed

lemma run_buffer:
  "\<exists>st'. run_background_algorithm h run st = Inr st'
     \<and> all_words_buffer st' =
          fold push (map (\<lambda>c. filter kept (split (clean_text c))) (filter (\<lambda>c. c \<noteq> []) (map fst run)))
            (all_words_buffer st)"
proof (induction run arbitrary: st)
  case Nil
  then show ?case by simp
next
  case (Cons a run)
  obtain content d where a: "a = (content, d)" by (cases a) auto
  obtain st1 where st1: "loop_body h content d st = Inr st1"
      "all_words_buffer st1 =
          (if content \<noteq> [] then push (filter kept (split (clean_text content))) (all_words_buffer st)
           else all_words_buffer st)"
    using loop_body_buffer by blast
  from Cons.IH[of st1] show ?case using a st1 by auto
qed

lemma buffer_keeps_last_words:
  "\<exists>st. run_background_algorithm h run initial = Inr st
     \<and> all_words_buffer st =
          (let ws = map (\<lambda>c. filter kept (split (clean_text c))) (filter (\<lambda>c. c \<noteq> []) (map fst run))
           in drop (length ws - WINDOW_SIZE) ws)"
proof -
  let ?ws = "map (\<lambda>c. filter kept (split (clean_text c))) (filter (\<lambda>c. c \<noteq> []) (map fst run))"
  obtain st where "run_background_algorithm h run initial = Inr st"
      "all_words_buffer st = fold push ?ws (all_words_buffer initial)"
    using run_buffer by blast
  moreover have "fold push ?ws [] = drop (length ?ws - WINDOW_SIZE) ?ws"
    using fold_push_drop[of "[]" ?ws] by simp
  ultimately show ?thesis by (simp add: initial_def Let_def)
qed

text \<open>What the loop publishes does not depend on the sketches.\<close>

lemma loop_body_same_trend:
  assumes "all_words_buffer s1 = all_words_buffer s2" "current_trending s1 = current_trending s2"
  shows "\<exists>t1 t2. loop_body h content d1 s1 = Inr t1 \<and> loop_body h content d2 s2 = Inr t2
     \<and> all_words_buffer t1 = all_words_buffer t2 \<and> current_trending t1 = current_trending t2"
proof (cases "content = []")
  case True
  then show ?thesis using assms by (simp add: loop_body_def)
next
  case False
  obtain c1 where c1: "process_text h content d1 (window s1) = Inr (push c1 (window s1))"
    using process_text_total by blast
  obtain c2 where c2: "process_text h content d2 (window s2) = Inr (push c2 (window s2))"
    using process_text_total by blast
  show ?thesis using False assms c1 c2 by (simp add: loop_body_def Let_def)
qed

lemma run_same_trend:
  assumes "map fst run1 = map fst run2"
    "all_words_buffer s1 = all_words_buffer s2" "current_trending s1 = current_trending s2"
  shows "\<exists>t1 t2. run_background_algorithm h run1 s1 = Inr t1 \<and> run_background_algorithm h run2 s2 = Inr t2
     \<and> all_words_buffer t1 = all_words_buffer t2 \<and> current_trending t1 = current_trending t2"
  using assms
proof (induction run1 arbitrary: run2 s1 s2)
  case Nil
  then show ?case by simp
next
  case (Cons a run1)
  obtain content d1 where a: "a = (content, d1)" by (cases a) auto
  obtain d2 rest where r: "run2 = (content, d2) # rest" "map fst run1 = map fst rest"
    using Cons.prems(1) a by (cases run2) auto
  obtain t1 t2 where t: "loop_body h content d1 s1 = Inr t1" "loop_body h content d2 s2 = Inr t2"
      "all_words_buffer t1 = all_words_buffer t2" "current_trending t1 = current_trending t2"
    using loop_body_same_trend[OF Cons.prems(2,3)] by blast
  from Cons.IH[OF r(2) t(3,4)] show ?case using a r(1) t(1,2) by simp
qed

text \<open>
  C7, as amended: two runs of the background loop on the same fetched contents publish the
  same ranking and the same probabilities, whatever each run's sketches draw from
  \<^verbatim>\<open>random\<close>.
\<close>

theorem published_ranking_independent_of_draws:
  assumes "map fst run1 = map fst run2"
  shows "\<exists>st1 st2. run_background_algorithm h run1 initial = Inr st1
     \<and> run_background_algorithm h run2 initial = Inr st2
     \<and> current_trending st1 = current_trending st2
     \<and> get_top_k_words (current_trending st1) = get_top_k_words (current_trending st2)"
proof -
  obtain t1 t2 where "run_background_algorithm h run1 initial = Inr t1"
      "run_background_algorithm h run2 initial = Inr t2" "current_trending t1 = current_trending t2"
    using run_same_trend[OF assms, of initial initial h] by auto
  then show ?thesis by auto
qed

theorem published_ranking_independent_of_draws_witness:
  "map fst [(''Fed raises rates'', zero_draws)] = map fst [(''Fed raises rates'', half_draws)]
   \<and> (\<exists>st1 st2. run_background_algorithm zero_hash [(''Fed raises rates'', zero_draws)] initial = Inr st1
     \<and> run_background_algorithm zero_hash [(''Fed raises rates'', half_draws)] initial = Inr st2
     \<and> current_trending st1 = current_trending st2
     \<and> get_top_k_words (current_trending st1) = get_top_k_words (current_trending st2))"
proof -
  have same: "map fst [(''Fed raises rates'', zero_draws)] = map fst [(''Fed raises rates'', half_draws)]"
    by simp
  from published_ranking_independent_of_draws[OF same] show ?thesis using same by blast
qed

text \<open>
  C7 as stated fails in its last part: the sketch depends on what \<^verbatim>\<open>random\<close> returns, not
  on the configuration alone. Two constructions with the default configuration differ when
  \<^verbatim>\<open>random.random()\<close> returns \<open>0.0\<close> in one and \<open>0.5\<close> in the other.
\<close>

theorem construction_depends_on_draws: "CountMinSketch_new zero_draws \<noteq> CountMinSketch_new half_draws"
proof
  assume "CountMinSketch_new zero_draws = CountMinSketch_new half_draws"
  then have "depth_expr (rand_float zero_draws) = depth_expr (rand_float half_draws)"
    by (simp add: new_result)
  then show False
    by (simp add: zero_draws_def half_draws_def depth_expr_def py_int_def)
qed

end
